theory Spec2Isabelle
  imports Complex_Main "HOL-Library.Word" "HOL-Library.Multiset"
begin

section \<open>K-nearest-neighbour classification (week_4, SVC and KNN notebook)\<close>

text \<open>
  The function verified here is \<^verbatim>\<open>knn_predict\<close> of the notebook's last code cell:
  \<^verbatim>\<open>
  def knn_predict(X_train, y_train, X_test, k=3):
      y_pred = []
      for test_point in X_test:
          distances = np.sqrt(((X_train - test_point) ** 2).sum(axis=1))
          nearest_neighbors = np.argsort(distances)[:k]
          nearest_labels = [y_train[i] for i in nearest_neighbors]
          majority_vote = Counter(nearest_labels).most_common(1)[0][0]
          y_pred.append(majority_vote)
      return np.array(y_pred)
  \<close>
  The feature arrays are arrays of 64-bit signed integers, as the arrays of the notebook
  are (\<^verbatim>\<open>np.array([[1, 2], [2, 3], ...])\<close>): subtraction, squaring and summation wrap
  around modulo \<open>2 ^ 64\<close>. Labels are values of any one type with equality. Python
  exceptions are values of \<open>py_error\<close>.
\<close>

subsection \<open>Arrays and errors\<close>

datatype py_error = ValueError | IndexError

type_synonym int64 = "64 word"

text \<open>A two-dimensional array of shape \<open>(length rows, ncols)\<close>.\<close>

record array2d =
  ncols :: nat
  rows :: "int64 list list"

definition wf_array2d :: "array2d \<Rightarrow> bool" where
  "wf_array2d A \<longleftrightarrow> list_all (\<lambda>r. length r = ncols A) (rows A)"

subsection \<open>The numeric steps of the loop body\<close>

text \<open>
  \<^verbatim>\<open>X_train - test_point\<close>: shapes \<open>(N, D)\<close> and \<open>(D',)\<close> are broadcast against each
  other. The trailing dimensions must be equal or one of them must be 1; anything else
  raises ValueError, whatever \<open>N\<close> is. The subtraction is that of \<open>int64\<close>.
\<close>

definition broadcast_sub :: "array2d \<Rightarrow> int64 list \<Rightarrow> py_error + int64 list list" where
  "broadcast_sub X q =
     (if ncols X = length q then Inr (map (\<lambda>x. map2 (-) x q) (rows X))
      else if length q = 1 then Inr (map (\<lambda>x. map (\<lambda>a. a - hd q) x) (rows X))
      else if ncols X = 1 then Inr (map (\<lambda>x. map (\<lambda>b. hd x - b) q) (rows X))
      else Inl ValueError)"

text \<open>
  \<^verbatim>\<open>np.sqrt\<close> of an \<open>int64\<close> is a 64-bit float: the integer converted to a float and
  its root rounded, or \<^verbatim>\<open>nan\<close> for a negative integer. Floats are not computed here:
  \<open>Sqrt_of s\<close> stands for the float that \<^verbatim>\<open>np.sqrt\<close> returns on \<open>s\<close>.
\<close>

datatype float64 = Sqrt_of (radicand: int64)

text \<open>\<^verbatim>\<open>np.sqrt((D ** 2).sum(axis=1))\<close>, the square and the sum in \<open>int64\<close>.\<close>

definition row_norms :: "int64 list list \<Rightarrow> float64 list" where
  "row_norms D = map (\<lambda>r. Sqrt_of (sum_list (map (\<lambda>v. v ^ 2) r))) D"

definition distances :: "array2d \<Rightarrow> int64 list \<Rightarrow> py_error + float64 list" where
  "distances X q = (case broadcast_sub X q of Inl e \<Rightarrow> Inl e | Inr D \<Rightarrow> Inr (row_norms D))"

text \<open>
  \<^verbatim>\<open>xs[:k]\<close>: a non-negative \<open>k\<close> keeps at most \<open>k\<close> leading elements, a negative \<open>k\<close>
  drops the last \<open>-k\<close> elements.
\<close>

definition slice_upto :: "int \<Rightarrow> 'a list \<Rightarrow> 'a list" where
  "slice_upto k xs =
     (if 0 \<le> k then take (nat k) xs else take (nat (int (length xs) + k)) xs)"

text \<open>
  For \<open>0 \<le> s < 2 ^ 51\<close> the conversion of \<open>s\<close> to a float is exact and different \<open>s\<close>
  have different rounded roots, so these floats are ordered as their radicands are.
\<close>

definition exact_sqrt :: "float64 \<Rightarrow> bool" where
  "exact_sqrt d \<longleftrightarrow> 0 \<le> sint (radicand d) \<and> sint (radicand d) < 2 ^ 51"

text \<open>
  \<^verbatim>\<open>np.argsort\<close> is a library routine; the function is a parameter \<open>argsort\<close> of the
  model. The notebook calls it with the default \<^verbatim>\<open>kind='quicksort'\<close>, which the library
  documents as: the result is a permutation of the indices that sorts the array, and the
  sort is not stable. \<open>argsort_ok\<close> is that contract, as far as the order of the floats
  is known here: the indices of the floats with \<open>exact_sqrt\<close> come in the order of their
  radicands. Nothing is assumed about where the other floats are put, nor about the order
  of equal floats.
\<close>

definition argsort_ok :: "(float64 list \<Rightarrow> nat list) \<Rightarrow> bool" where
  "argsort_ok argsort \<longleftrightarrow>
     (\<forall>ds. distinct (argsort ds) \<and> set (argsort ds) = {0..<length ds}
          \<and> sorted (map (\<lambda>i. sint (radicand (ds ! i)))
                       (filter (\<lambda>i. exact_sqrt (ds ! i)) (argsort ds))))"

text \<open>
  An implementation of the contract, used to evaluate the function on data whose floats
  all have \<open>exact_sqrt\<close> and differ, where every sort that meets the contract returns
  the same permutation: insertion sort over the indices in ascending order (equal keys
  keep index order), by the radicand, with \<^verbatim>\<open>nan\<close> last.
\<close>

definition sort_rank :: "float64 \<Rightarrow> int" where
  "sort_rank d = (if sint (radicand d) < 0 then 2 ^ 63 else sint (radicand d))"

definition argsort_stable :: "float64 list \<Rightarrow> nat list" where
  "argsort_stable ds = sort_key (\<lambda>i. sort_rank (ds ! i)) [0..<length ds]"

definition nearest_neighbors ::
  "(float64 list \<Rightarrow> nat list) \<Rightarrow> array2d \<Rightarrow> int \<Rightarrow> int64 list \<Rightarrow> py_error + nat list" where
  "nearest_neighbors argsort X k q =
     (case distances X q of Inl e \<Rightarrow> Inl e | Inr ds \<Rightarrow> Inr (slice_upto k (argsort ds)))"

subsection \<open>Labels of the neighbours and the vote\<close>

text \<open>\<^verbatim>\<open>y_train[i]\<close> for an index \<open>i \<ge> 0\<close>: IndexError beyond the end.\<close>

definition getitem :: "'l list \<Rightarrow> nat \<Rightarrow> py_error + 'l" where
  "getitem ys i = (if i < length ys then Inr (ys ! i) else Inl IndexError)"

text \<open>\<^verbatim>\<open>[y_train[i] for i in nearest_neighbors]\<close>\<close>

fun nearest_labels :: "'l list \<Rightarrow> nat list \<Rightarrow> py_error + 'l list" where
  "nearest_labels ys [] = Inr []"
| "nearest_labels ys (i # is) =
     (case getitem ys i of
        Inl e \<Rightarrow> Inl e
      | Inr v \<Rightarrow> (case nearest_labels ys is of Inl e \<Rightarrow> Inl e | Inr vs \<Rightarrow> Inr (v # vs)))"

text \<open>
  \<^verbatim>\<open>Counter(labels)\<close> is a dictionary from label to count; a dictionary keeps its keys in
  the order of their first insertion, so it is an association list in that order.
\<close>

fun counter_incr :: "'l \<Rightarrow> ('l \<times> nat) list \<Rightarrow> ('l \<times> nat) list" where
  "counter_incr x [] = [(x, 1)]"
| "counter_incr x ((y, c) # ps) =
     (if x = y then (y, c + 1) # ps else (y, c) # counter_incr x ps)"

definition Counter :: "'l list \<Rightarrow> ('l \<times> nat) list" where
  "Counter ls = foldl (\<lambda>c x. counter_incr x c) [] ls"

text \<open>
  \<^verbatim>\<open>most_common(1)\<close> is \<^verbatim>\<open>heapq.nlargest(1, items, key=count)\<close>, which is
  \<^verbatim>\<open>max(items, key=count)\<close> in a one-element list, or the empty list when there are no
  items. \<^verbatim>\<open>max\<close> keeps the first of several maximal items.
\<close>

fun first_max :: "('l \<times> nat) \<Rightarrow> ('l \<times> nat) list \<Rightarrow> ('l \<times> nat)" where
  "first_max best [] = best"
| "first_max best (p # ps) = first_max (if snd best < snd p then p else best) ps"

definition most_common1 :: "('l \<times> nat) list \<Rightarrow> ('l \<times> nat) list" where
  "most_common1 c = (case c of [] \<Rightarrow> [] | p # ps \<Rightarrow> [first_max p ps])"

text \<open>\<^verbatim>\<open>Counter(nearest_labels).most_common(1)[0][0]\<close>\<close>

definition majority_vote :: "'l list \<Rightarrow> py_error + 'l" where
  "majority_vote ls =
     (case most_common1 (Counter ls) of [] \<Rightarrow> Inl IndexError | p # _ \<Rightarrow> Inr (fst p))"

subsection \<open>The loop and the function\<close>

definition predict_point ::
  "(float64 list \<Rightarrow> nat list) \<Rightarrow> array2d \<Rightarrow> 'l list \<Rightarrow> int \<Rightarrow> int64 list \<Rightarrow> py_error + 'l" where
  "predict_point argsort X_train y_train k test_point =
     (case nearest_neighbors argsort X_train k test_point of
        Inl e \<Rightarrow> Inl e
      | Inr nn \<Rightarrow>
          (case nearest_labels y_train nn of
             Inl e \<Rightarrow> Inl e
           | Inr ls \<Rightarrow> majority_vote ls))"

fun knn_loop ::
  "(float64 list \<Rightarrow> nat list) \<Rightarrow> array2d \<Rightarrow> 'l list \<Rightarrow> int \<Rightarrow> int64 list list \<Rightarrow> 'l list
     \<Rightarrow> py_error + 'l list" where
  "knn_loop argsort X_train y_train k [] y_pred = Inr y_pred"
| "knn_loop argsort X_train y_train k (test_point # rest) y_pred =
     (case predict_point argsort X_train y_train k test_point of
        Inl e \<Rightarrow> Inl e
      | Inr v \<Rightarrow> knn_loop argsort X_train y_train k rest (y_pred @ [v]))"

text \<open>
  The loop with the accumulator \<^verbatim>\<open>y_pred\<close>; an exception in an iteration ends the call.
  \<^verbatim>\<open>np.array(y_pred)\<close> packs the labels, which are of one scalar type, into an array
  with the same elements in the same order.
\<close>

definition knn_predict ::
  "(float64 list \<Rightarrow> nat list) \<Rightarrow> array2d \<Rightarrow> 'l list \<Rightarrow> array2d \<Rightarrow> int \<Rightarrow> py_error + 'l list" where
  "knn_predict argsort X_train y_train X_test k =
     knn_loop argsort X_train y_train k (rows X_test) []"

text \<open>The keyword parameter \<^verbatim>\<open>k=3\<close>: \<open>None\<close> is a call that omits it.\<close>

definition knn_predict_kw ::
  "(float64 list \<Rightarrow> nat list) \<Rightarrow> array2d \<Rightarrow> 'l list \<Rightarrow> array2d \<Rightarrow> int option
     \<Rightarrow> py_error + 'l list" where
  "knn_predict_kw argsort X_train y_train X_test kopt =
     knn_predict argsort X_train y_train X_test (case kopt of None \<Rightarrow> 3 | Some k \<Rightarrow> k)"

subsection \<open>The notebook's test data\<close>

definition X_train_ex :: array2d where
  "X_train_ex = \<lparr>ncols = 2, rows = [[1, 2], [2, 3], [3, 3], [5, 4], [6, 5]]\<rparr>"

definition y_train_ex :: "int list" where
  "y_train_ex = [0, 0, 0, 1, 1]"

definition X_test_ex :: array2d where
  "X_test_ex = \<lparr>ncols = 2, rows = [[1, 2], [5, 3]]\<rparr>"




subsection \<open>Notions of the specification\<close>

text \<open>
  The Euclidean distance as the specification writes it, on the integers that the array
  elements denote: \<^verbatim>\<open>dist(q, x) = sqrt(sum over d of (q[d] - x[d])^2)\<close>. \<open>sq_dist\<close> is the
  sum under the root, an integer without bound.
\<close>

definition sq_dist :: "int64 list \<Rightarrow> int64 list \<Rightarrow> int" where
  "sq_dist q x = sum_list (map (\<lambda>d. (sint (q ! d) - sint (x ! d)) ^ 2) [0..<length q])"


text \<open>
  The data model of the specification: \<open>N \<ge> 1\<close> training vectors of one dimensionality
  \<open>D\<close>, one label per training vector, query vectors of dimensionality \<open>D\<close>.
\<close>

definition valid_data :: "array2d \<Rightarrow> 'l list \<Rightarrow> array2d \<Rightarrow> bool" where
  "valid_data X_train y_train X_test \<longleftrightarrow>
     wf_array2d X_train \<and> wf_array2d X_test \<and> rows X_train \<noteq> [] \<and>
     length y_train = length (rows X_train) \<and> ncols X_test = ncols X_train"

subsection \<open>Auxiliary notions\<close>



text \<open>When the subtraction of shapes \<open>(N, D)\<close> and \<open>(D',)\<close> does not raise.\<close>

definition broadcastable :: "nat \<Rightarrow> nat \<Rightarrow> bool" where
  "broadcastable D D' \<longleftrightarrow> D = D' \<or> D' = 1 \<or> D = 1"

text \<open>The number of elements of \<^verbatim>\<open>xs[:k]\<close> for a list of \<open>n\<close> elements.\<close>

definition slice_len :: "int \<Rightarrow> nat \<Rightarrow> nat" where
  "slice_len k n = (if 0 \<le> k then min (nat k) n else nat (int n + k))"

text \<open>The keys of a counter built from a list: its elements in order of first occurrence.\<close>

fun firsts :: "'l list \<Rightarrow> 'l list \<Rightarrow> 'l list" where
  "firsts acc [] = acc"
| "firsts acc (x # xs) = firsts (if x \<in> set acc then acc else acc @ [x]) xs"

section \<open>The loop\<close>

lemma knn_loop_Inr_iff:
  "knn_loop f X y k qs acc = Inr out \<longleftrightarrow>
     (\<exists>vs. out = acc @ vs \<and> list_all2 (\<lambda>q v. predict_point f X y k q = Inr v) qs vs)"
proof (induction qs arbitrary: acc)
  case Nil
  then show ?case by auto
next
  case (Cons q qs)
  show ?case
  proof (cases "predict_point f X y k q")
    case (Inl e)
    then show ?thesis by (auto simp: list_all2_Cons1)
  next
    case (Inr v)
    then show ?thesis by (auto simp: Cons.IH list_all2_Cons1)
  qed
qed

lemma knn_predict_Inr_iff:
  "knn_predict f X y Q k = Inr out \<longleftrightarrow>
     list_all2 (\<lambda>q v. predict_point f X y k q = Inr v) (rows Q) out"
  by (simp add: knn_predict_def knn_loop_Inr_iff)

section \<open>The vote\<close>

lemma counter_incr_map:
  "distinct ks \<Longrightarrow> counter_incr x (map (\<lambda>l. (l, g l)) ks) =
     (if x \<in> set ks then map (\<lambda>l. (l, if l = x then g l + 1 else g l)) ks
      else map (\<lambda>l. (l, g l)) ks @ [(x, 1)])"
  by (induction ks) auto

lemma Counter_snoc: "Counter (ls @ [x]) = counter_incr x (Counter ls)"
  by (simp add: Counter_def)

lemma firsts_snoc: "firsts acc (ls @ [x]) = (if x \<in> set (firsts acc ls) then firsts acc ls else firsts acc ls @ [x])"
  by (induction ls arbitrary: acc) auto

lemma set_firsts: "set (firsts acc ls) = set acc \<union> set ls"
  by (induction ls arbitrary: acc) auto

lemma distinct_firsts: "distinct acc \<Longrightarrow> distinct (firsts acc ls)"
  by (induction ls arbitrary: acc) auto

lemma Counter_eq: "Counter ls = map (\<lambda>l. (l, count_list ls l)) (firsts [] ls)"
proof (induction ls rule: rev_induct)
  case Nil
  then show ?case by (simp add: Counter_def)
next
  case (snoc x xs)
  have d: "distinct (firsts [] xs)" by (simp add: distinct_firsts)
  show ?case
    unfolding Counter_snoc snoc.IH counter_incr_map[OF d] firsts_snoc
    by (auto simp: set_firsts count_list_0_iff)
qed

lemma first_max_cases:
  "first_max b ps = r \<Longrightarrow>
     (r = b \<and> (\<forall>x\<in>set ps. snd x \<le> snd b)) \<or>
     (\<exists>pre post. ps = pre @ r # post \<and> snd b < snd r \<and>
        (\<forall>x\<in>set pre. snd x < snd r) \<and> (\<forall>x\<in>set post. snd x \<le> snd r))"
proof (induction ps arbitrary: b)
  case Nil
  then show ?case by simp
next
  case (Cons p ps)
  let ?b = "if snd b < snd p then p else b"
  from Cons.prems have r: "first_max ?b ps = r" by simp
  from Cons.IH[OF r] consider
      (same) "r = ?b" "\<forall>x\<in>set ps. snd x \<le> snd ?b"
    | (later) pre post where "ps = pre @ r # post" "snd ?b < snd r"
        "\<forall>x\<in>set pre. snd x < snd r" "\<forall>x\<in>set post. snd x \<le> snd r"
    by blast
  then show ?case
  proof cases
    case same
    show ?thesis
    proof (cases "snd b < snd p")
      case True
      with same have "p # ps = [] @ r # ps" "snd b < snd r" "\<forall>x\<in>set ps. snd x \<le> snd r"
        by simp_all
      then show ?thesis by (metis empty_iff list.set(1))  
    next
      case False
      with same show ?thesis by auto
    qed
  next
    case later
    have "p # ps = (p # pre) @ r # post" using later(1) by simp
    moreover have "snd b < snd r" using later(2) by (auto split: if_splits)
    moreover have "\<forall>x\<in>set (p # pre). snd x < snd r"
      using later(2,3) by (auto split: if_splits)
    ultimately show ?thesis using later(4) by blast
  qed
qed

lemma first_max_split:
  "first_max b ps = r \<Longrightarrow>
     \<exists>pre post. b # ps = pre @ r # post \<and> (\<forall>x\<in>set pre. snd x < snd r) \<and> (\<forall>x\<in>set post. snd x \<le> snd r)"
proof -
  assume a: "first_max b ps = r"
  from first_max_cases[OF a] show ?thesis
  proof
    assume "r = b \<and> (\<forall>x\<in>set ps. snd x \<le> snd b)"
    then have "b # ps = [] @ r # ps \<and> (\<forall>x\<in>set []. snd x < snd r) \<and> (\<forall>x\<in>set ps. snd x \<le> snd r)"
      by simp
    then show ?thesis by blast
  next
    assume "\<exists>pre post. ps = pre @ r # post \<and> snd b < snd r \<and>
        (\<forall>x\<in>set pre. snd x < snd r) \<and> (\<forall>x\<in>set post. snd x \<le> snd r)"
    then obtain pre post where p: "ps = pre @ r # post" "snd b < snd r"
        "\<forall>x\<in>set pre. snd x < snd r" "\<forall>x\<in>set post. snd x \<le> snd r" by blast
    then have "b # ps = (b # pre) @ r # post \<and> (\<forall>x\<in>set (b # pre). snd x < snd r) \<and> (\<forall>x\<in>set post. snd x \<le> snd r)"
      by simp
    then show ?thesis by blast
  qed
qed

lemma takeWhile_snoc_found:
  "v \<in> set xs \<Longrightarrow> takeWhile (\<lambda>x. x \<noteq> v) (xs @ [x]) = takeWhile (\<lambda>x. x \<noteq> v) xs"
  by (induction xs) auto

lemma set_takeWhile_neq: "set (takeWhile (\<lambda>x. x \<noteq> v) xs) \<subseteq> set xs - {v}"
  by (induction xs) auto

lemma takeWhile_snoc_self: "set (takeWhile (\<lambda>x. x \<noteq> v) (xs @ [v])) \<subseteq> set xs"
  using set_takeWhile_neq[of v "xs @ [v]"] by auto

lemma majority_vote_Nil: "majority_vote ([] :: 'l list) = Inl IndexError"
  by (simp add: majority_vote_def most_common1_def Counter_def)

lemma firsts_order:
  "firsts [] ls = kpre @ v # kpost \<Longrightarrow> set (takeWhile (\<lambda>x. x \<noteq> v) ls) \<subseteq> set kpre"
proof (induction ls arbitrary: kpost rule: rev_induct)
  case Nil
  then show ?case by simp
next
  case (snoc x xs)
  have sf: "set (firsts [] xs) = set xs" by (simp add: set_firsts)
  show ?case
  proof (cases "x \<in> set xs")
    case True
    with snoc.prems sf have f: "firsts [] xs = kpre @ v # kpost"
      by (simp add: firsts_snoc)
    then have "v \<in> set xs" using sf by auto
    then show ?thesis using snoc.IH[OF f] by (simp only: takeWhile_snoc_found)
  next
    case False
    with snoc.prems sf have f: "firsts [] xs @ [x] = kpre @ v # kpost"
      by (simp add: firsts_snoc)
    show ?thesis
    proof (cases kpost rule: rev_cases)
      case Nil
      with f have fk: "firsts [] xs = kpre" and xv: "x = v" by simp_all
      from fk sf have "set xs = set kpre" by simp
      with xv takeWhile_snoc_self[of v xs] show ?thesis by simp
    next
      case (snoc kp y)
      with f have g: "firsts [] xs = kpre @ v # kp" by simp
      then have "v \<in> set xs" using sf by auto
      then show ?thesis using snoc.IH[OF g] by (simp only: takeWhile_snoc_found)
    qed
  qed
qed

lemma majority_vote_first_max:
  assumes "ls \<noteq> []"
  shows "\<exists>v pre post. majority_vote ls = Inr v \<and> ls = pre @ v # post \<and> v \<notin> set pre \<and>
           (\<forall>l\<in>set pre. count_list ls l < count_list ls v) \<and>
           (\<forall>l. count_list ls l \<le> count_list ls v)"
proof -
  let ?g = "\<lambda>l. (l, count_list ls l)"
  let ?ks = "firsts [] ls"
  have ks: "set ?ks = set ls" by (simp add: set_firsts)
  with assms have "?ks \<noteq> []" by auto
  then obtain k0 krest where k0: "?ks = k0 # krest" by (cases ?ks) auto
  define r where "r = first_max (?g k0) (map ?g krest)"
  have mv: "majority_vote ls = Inr (fst r)"
    by (simp add: majority_vote_def most_common1_def Counter_eq k0 r_def)
  from first_max_split[OF r_def[symmetric]] obtain pre' post' where
    sp: "map ?g ?ks = pre' @ r # post'" and
    lt: "\<forall>x\<in>set pre'. snd x < snd r" and le: "\<forall>x\<in>set post'. snd x \<le> snd r"
    by (auto simp: k0)
  from sp obtain kpre v kpost where
    kk: "?ks = kpre @ v # kpost" "pre' = map ?g kpre" "r = ?g v" "post' = map ?g kpost"
    by (auto simp: map_eq_append_conv map_eq_Cons_conv)
  have vin: "v \<in> set ls" using kk(1) ks by auto
  let ?pre = "takeWhile (\<lambda>x. x \<noteq> v) ls"
  let ?post = "tl (dropWhile (\<lambda>x. x \<noteq> v) ls)"
  have ne: "dropWhile (\<lambda>x. x \<noteq> v) ls \<noteq> []"
    using vin by (auto simp: dropWhile_eq_Nil_conv)
  from hd_dropWhile[OF ne] have "hd (dropWhile (\<lambda>x. x \<noteq> v) ls) = v" by simp
  with ne have dw: "dropWhile (\<lambda>x. x \<noteq> v) ls = v # ?post"
    by (cases "dropWhile (\<lambda>x. x \<noteq> v) ls") auto
  have split: "ls = ?pre @ v # ?post"
    using takeWhile_dropWhile_id[of "\<lambda>x. x \<noteq> v" ls] dw by simp
  have notin: "v \<notin> set ?pre" by (auto dest: set_takeWhileD)
  have pre_lt: "\<forall>l\<in>set ?pre. count_list ls l < count_list ls v"
    using firsts_order[OF kk(1)] lt kk(2,3) by auto
  have all_le: "count_list ls l \<le> count_list ls v" for l
  proof (cases "l \<in> set ls")
    case True
    then have "l \<in> set kpre \<or> l = v \<or> l \<in> set kpost" using ks kk(1) by auto
    then show ?thesis using lt le kk(2,3,4) by auto
  next
    case False
    then show ?thesis by (simp add: count_list_0_iff)
  qed
  have "majority_vote ls = Inr v" using mv kk(3) by simp
  with split notin pre_lt all_le show ?thesis by blast
qed

section \<open>Distances and neighbour selection\<close>

lemma sq_dist_zip:
  "length x = length q \<Longrightarrow>
     sq_dist q x = sum_list (map2 (\<lambda>a b. (sint a - sint b) ^ 2) q x)"
proof -
  assume l: "length x = length q"
  have "map2 (\<lambda>a b. (sint a - sint b) ^ 2) q x =
      map (\<lambda>d. (sint (q ! d) - sint (x ! d)) ^ 2) [0..<length q]"
    using l by (intro nth_equalityI) auto
  then show ?thesis by (simp add: sq_dist_def)
qed


lemma word_sq_sum_zip:
  "length x = length q \<Longrightarrow>
     sum_list (map (\<lambda>v. v ^ 2) (map2 (-) x q)) =
       (word_of_int (sum_list (map2 (\<lambda>a b. (sint a - sint b) ^ 2) q x)) :: int64)"
proof (induction x q rule: list_induct2)
  case Nil
  then show ?case by simp
next
  case (Cons a x b q)
  have "(a - b) ^ 2 = (word_of_int ((sint b - sint a) ^ 2) :: int64)"
    by (simp add: power2_commute)
  with Cons.IH show ?case by simp
qed

lemma word_sq_sum:
  "length x = length q \<Longrightarrow>
     sum_list (map (\<lambda>v. v ^ 2) (map2 (-) x q)) = (word_of_int (sq_dist q x) :: int64)"
  by (simp only: word_sq_sum_zip sq_dist_zip)



lemma row_norms_map:
  "\<forall>x\<in>set xs. Sqrt_of (sum_list (map (\<lambda>v. v ^ 2) (h x))) = g x \<Longrightarrow>
     row_norms (map h xs) = map g xs"
  by (induction xs) (simp_all add: row_norms_def)

lemma distances_same_dim:
  assumes "wf_array2d X" "ncols X = length q"
  shows "distances X q = Inr (map (\<lambda>x. Sqrt_of (word_of_int (sq_dist q x))) (rows X))"
proof -
  have "\<forall>x\<in>set (rows X). length x = length q"
    using assms by (simp add: wf_array2d_def list_all_iff)
  then have "row_norms (map (\<lambda>x. map2 (-) x q) (rows X)) =
      map (\<lambda>x. Sqrt_of (word_of_int (sq_dist q x))) (rows X)"
    by (intro row_norms_map ballI) (simp only: word_sq_sum)
  then show ?thesis using assms(2) by (simp add: distances_def broadcast_sub_def)
qed

lemma distances_length:
  "distances X q = Inr ds \<Longrightarrow> length ds = length (rows X)"
  by (auto simp: distances_def broadcast_sub_def row_norms_def split: if_splits)

lemma slice_upto_take: "slice_upto k xs = take (slice_len k (length xs)) xs"
  by (auto simp: slice_upto_def slice_len_def min_def)

lemma length_slice_upto: "length (slice_upto k xs) = slice_len k (length xs)"
  by (auto simp: slice_upto_def slice_len_def)


lemma argsort_ok_length: "argsort_ok f \<Longrightarrow> length (f ds) = length ds"
proof -
  assume a: "argsort_ok f"
  then have "distinct (f ds)" "set (f ds) = {0..<length ds}" by (auto simp: argsort_ok_def)
  then have "length (f ds) = card {0..<length ds}" by (metis distinct_card)
  then show ?thesis by simp
qed

lemma argsort_ok_sorted:
  assumes "argsort_ok f" "\<forall>d\<in>set ds. exact_sqrt d"
  shows "sorted (map (\<lambda>i. sint (radicand (ds ! i))) (f ds))"
proof -
  from assms(1) have s: "set (f ds) = {0..<length ds}"
    and o: "sorted (map (\<lambda>i. sint (radicand (ds ! i)))
              (filter (\<lambda>i. exact_sqrt (ds ! i)) (f ds)))"
    by (auto simp: argsort_ok_def)
  have "filter (\<lambda>i. exact_sqrt (ds ! i)) (f ds) = f ds"
    using s assms(2) by (intro filter_True) auto
  with o show ?thesis by simp
qed

lemma slice_argsort:
  assumes "argsort_ok f"
  shows "distinct (slice_upto k (f ds))"
    and "set (slice_upto k (f ds)) \<subseteq> {0..<length ds}"
    and "length (slice_upto k (f ds)) = slice_len k (length ds)"
proof -
  from assms have d: "distinct (f ds)" and s: "set (f ds) = {0..<length ds}"
    by (auto simp: argsort_ok_def)
  show "distinct (slice_upto k (f ds))" using d by (simp add: slice_upto_take)
  show "set (slice_upto k (f ds)) \<subseteq> {0..<length ds}"
    using s set_take_subset[of _ "f ds"] by (simp add: slice_upto_take)
  show "length (slice_upto k (f ds)) = slice_len k (length ds)"
    by (simp add: length_slice_upto argsort_ok_length[OF assms])
qed


lemma nearest_labels_in_range:
  "\<forall>i\<in>set ns. i < length ys \<Longrightarrow> nearest_labels ys ns = Inr (map (\<lambda>i. ys ! i) ns)"
  by (induction ns) (simp_all add: getitem_def)

lemma nearest_labels_InrD:
  "nearest_labels ys ns = Inr ls \<Longrightarrow> (\<forall>i\<in>set ns. i < length ys) \<and> ls = map (\<lambda>i. ys ! i) ns"
  by (induction ns arbitrary: ls) (auto simp: getitem_def split: sum.splits if_splits)

section \<open>One iteration\<close>

lemma nearest_neighbors_Inr:
  "distances X q = Inr ds \<Longrightarrow> nearest_neighbors f X k q = Inr (slice_upto k (f ds))"
  by (simp add: nearest_neighbors_def)

lemma predict_point_vote:
  assumes ok: "argsort_ok f" and ds: "distances X q = Inr ds"
    and len: "length (rows X) \<le> length y"
  shows "predict_point f X y k q = majority_vote (map (\<lambda>i. y ! i) (slice_upto k (f ds)))"
proof -
  have "\<forall>i\<in>set (slice_upto k (f ds)). i < length y"
    using slice_argsort(2)[OF ok, of k ds] distances_length[OF ds] len by auto
  then show ?thesis
    by (simp add: predict_point_def nearest_neighbors_Inr[OF ds] nearest_labels_in_range)
qed

lemma predict_point_ok:
  assumes ok: "argsort_ok f" and ds: "distances X q = Inr ds"
    and len: "length (rows X) \<le> length y"
    and pos: "0 < slice_len k (length (rows X))"
  shows "\<exists>v pre post. predict_point f X y k q = Inr v \<and>
           map (\<lambda>i. y ! i) (slice_upto k (f ds)) = pre @ v # post \<and> v \<notin> set pre \<and>
           (\<forall>l\<in>set pre. count_list (map (\<lambda>i. y ! i) (slice_upto k (f ds))) l
                          < count_list (map (\<lambda>i. y ! i) (slice_upto k (f ds))) v) \<and>
           (\<forall>l. count_list (map (\<lambda>i. y ! i) (slice_upto k (f ds))) l
                   \<le> count_list (map (\<lambda>i. y ! i) (slice_upto k (f ds))) v)"
proof -
  have "length (slice_upto k (f ds)) = slice_len k (length (rows X))"
    using slice_argsort(3)[OF ok, of k ds] distances_length[OF ds] by simp
  with pos have "map (\<lambda>i. y ! i) (slice_upto k (f ds)) \<noteq> []" by auto
  from majority_vote_first_max[OF this] show ?thesis
    unfolding predict_point_vote[OF ok ds len] .
qed

lemma list_all2_choice:
  "\<forall>q\<in>set qs. \<exists>v. P q v \<Longrightarrow> \<exists>vs. list_all2 P qs vs"
proof (induction qs)
  case Nil
  then show ?case by simp
next
  case (Cons q qs)
  then obtain v vs where "P q v" "list_all2 P qs vs" by auto
  then have "list_all2 P (q # qs) (v # vs)" by simp
  then show ?case by blast
qed

lemma knn_predict_total:
  "\<forall>q\<in>set (rows Q). \<exists>v. predict_point f X y k q = Inr v \<Longrightarrow>
     \<exists>out. knn_predict f X y Q k = Inr out"
  unfolding knn_predict_Inr_iff by (rule list_all2_choice)

lemma knn_predict_nth:
  assumes "knn_predict f X y Q k = Inr out"
  shows "length out = length (rows Q)"
    and "i < length (rows Q) \<Longrightarrow> predict_point f X y k (rows Q ! i) = Inr (out ! i)"
  using assms unfolding knn_predict_Inr_iff
  by (auto dest: list_all2_lengthD list_all2_nthD)

lemma knn_loop_cong:
  "\<forall>q\<in>set qs. predict_point f X y k q = predict_point f' X' y' k' q \<Longrightarrow>
     knn_loop f X y k qs acc = knn_loop f' X' y' k' qs acc"
  by (induction qs arbitrary: acc) (auto split: sum.splits)

lemma valid_data_distances:
  assumes "valid_data X y Q" "q \<in> set (rows Q)"
  shows "distances X q = Inr (map (\<lambda>x. Sqrt_of (word_of_int (sq_dist q x))) (rows X))"
proof -
  from assms have "length q = ncols X"
    by (auto simp: valid_data_def wf_array2d_def list_all_iff)
  with assms(1) show ?thesis by (intro distances_same_dim) (auto simp: valid_data_def)
qed





text \<open>One iteration on valid data: the neighbours and the vote.\<close>

lemma predict_point_valid:
  assumes ok: "argsort_ok f" and valid: "valid_data X y Q" and q: "q \<in> set (rows Q)"
    and pos: "0 < slice_len k (length (rows X))"
  obtains nn v pre post where
    "nearest_neighbors f X k q = Inr nn"
    "predict_point f X y k q = Inr v"
    "distinct nn" "set nn \<subseteq> {0..<length (rows X)}"
    "length nn = slice_len k (length (rows X))"
    "map (\<lambda>i. y ! i) nn = pre @ v # post" "v \<notin> set pre"
    "\<forall>l\<in>set pre. count_list (map (\<lambda>i. y ! i) nn) l < count_list (map (\<lambda>i. y ! i) nn) v"
    "\<forall>l. count_list (map (\<lambda>i. y ! i) nn) l \<le> count_list (map (\<lambda>i. y ! i) nn) v"
proof -
  let ?N = "length (rows X)"
  let ?ds = "map (\<lambda>x. Sqrt_of (word_of_int (sq_dist q x))) (rows X)"
  let ?nn = "slice_upto k (f ?ds)"
  have ds: "distances X q = Inr ?ds" by (rule valid_data_distances[OF valid q])
  have len: "?N \<le> length y" using valid by (simp add: valid_data_def)
  have sub: "set ?nn \<subseteq> {0..<?N}" using slice_argsort(2)[OF ok, of k ?ds] by simp
  from predict_point_ok[OF ok ds len pos] obtain v pre post where
    v: "predict_point f X y k q = Inr v" "map (\<lambda>i. y ! i) ?nn = pre @ v # post" "v \<notin> set pre"
      "\<forall>l\<in>set pre. count_list (map (\<lambda>i. y ! i) ?nn) l < count_list (map (\<lambda>i. y ! i) ?nn) v"
      "\<forall>l. count_list (map (\<lambda>i. y ! i) ?nn) l \<le> count_list (map (\<lambda>i. y ! i) ?nn) v"
    by blast
  show thesis
  proof (rule that[of ?nn v pre post])
    show "nearest_neighbors f X k q = Inr ?nn" by (rule nearest_neighbors_Inr[OF ds])
    show "distinct ?nn" by (rule slice_argsort(1)[OF ok])
    show "length ?nn = slice_len k ?N" using slice_argsort(3)[OF ok, of k ?ds] by simp
  qed (use v sub in blast)+
qed



lemma slice_len_pos': "1 \<le> k \<Longrightarrow> 0 < n \<Longrightarrow> 0 < slice_len k n"
  by (simp add: slice_len_def)


section \<open>The argsort contract and the test data\<close>

lemma argsort_stable_ok: "argsort_ok argsort_stable"
proof -
  have "sorted (map (\<lambda>i. sint (radicand (ds ! i)))
          (filter (\<lambda>i. exact_sqrt (ds ! i)) (argsort_stable ds)))" for ds
  proof -
    let ?xs = "filter (\<lambda>i. exact_sqrt (ds ! i)) (argsort_stable ds)"
    have "sorted (map (\<lambda>i. sort_rank (ds ! i)) (argsort_stable ds))"
      by (simp add: argsort_stable_def)
    then have "sorted (map (\<lambda>i. sort_rank (ds ! i)) ?xs)"
      by (rule sorted_filter)
    moreover have "map (\<lambda>i. sort_rank (ds ! i)) ?xs = map (\<lambda>i. sint (radicand (ds ! i))) ?xs"
      by (intro map_cong refl) (auto simp: sort_rank_def exact_sqrt_def)
    ultimately show ?thesis by (simp only:)
  qed
  then show ?thesis by (simp add: argsort_ok_def) (simp add: argsort_stable_def)
qed

lemma argsort_unique:
  assumes ok: "argsort_ok f" and ex: "\<forall>d\<in>set ds. exact_sqrt d" and d: "distinct ds"
  shows "f ds = argsort_stable ds"
proof -
  let ?g = "\<lambda>i. sint (radicand (ds ! i))"
  have inj: "inj_on ?g {0..<length ds}"
  proof (rule inj_onI)
    fix a b assume a: "a \<in> {0..<length ds}" and b: "b \<in> {0..<length ds}" and e: "?g a = ?g b"
    from e have "radicand (ds ! a) = radicand (ds ! b)" by (rule signed_word_eqI)
    then have "ds ! a = ds ! b" by (rule float64.expand)
    with a b d show "a = b" by (simp add: nth_eq_iff_index_eq)
  qed
  have props: "distinct (map ?g (h ds)) \<and> sorted (map ?g (h ds)) \<and>
      set (map ?g (h ds)) = ?g ` {0..<length ds} \<and> set (h ds) = {0..<length ds}"
    if h: "argsort_ok h" for h
    using argsort_ok_sorted[OF h ex] h inj by (auto simp: argsort_ok_def distinct_map)
  have "map ?g (f ds) = map ?g (argsort_stable ds)"
    using props[OF ok] props[OF argsort_stable_ok]
    by (intro sorted_distinct_set_unique) simp_all
  moreover have "inj_on ?g (set (f ds) \<union> set (argsort_stable ds))"
    using props[OF ok] props[OF argsort_stable_ok] inj by simp
  ultimately show ?thesis by (simp add: inj_on_map_eq_map)
qed




text \<open>The test data of the notebook.\<close>

lemma valid_ex: "valid_data X_train_ex y_train_ex X_test_ex"
  by (simp add: valid_data_def wf_array2d_def X_train_ex_def y_train_ex_def X_test_ex_def)

lemma wf_X_test_ex: "wf_array2d X_test_ex"
  by (simp add: wf_array2d_def X_test_ex_def)


lemma upt_5: "[0..<5] = [0, 1, 2, 3, 4]"
  by (simp add: upt_rec)


lemma distances_ex1:
  "distances X_train_ex [1, 2] = Inr [Sqrt_of 0, Sqrt_of 2, Sqrt_of 5, Sqrt_of 20, Sqrt_of 34]"
  by (simp add: distances_def broadcast_sub_def row_norms_def X_train_ex_def)

lemma distances_ex2:
  "distances X_train_ex [5, 3] = Inr [Sqrt_of 17, Sqrt_of 9, Sqrt_of 4, Sqrt_of 1, Sqrt_of 5]"
  by (simp add: distances_def broadcast_sub_def row_norms_def X_train_ex_def)

lemma distances_ex3:
  "distances X_train_ex [1] = Inr [Sqrt_of 1, Sqrt_of 5, Sqrt_of 8, Sqrt_of 25, Sqrt_of 41]"
  by (simp add: distances_def broadcast_sub_def row_norms_def X_train_ex_def)

lemma distances_ex4:
  "distances X_train_ex [6] = Inr [Sqrt_of 41, Sqrt_of 25, Sqrt_of 18, Sqrt_of 5, Sqrt_of 1]"
  by (simp add: distances_def broadcast_sub_def row_norms_def X_train_ex_def)

lemma argsort_ex1:
  "argsort_stable [Sqrt_of 0, Sqrt_of 2, Sqrt_of 5, Sqrt_of 20, Sqrt_of 34] = [0, 1, 2, 3, 4]"
  by (simp add: argsort_stable_def upt_5 sort_rank_def)

lemma argsort_ex2:
  "argsort_stable [Sqrt_of 17, Sqrt_of 9, Sqrt_of 4, Sqrt_of 1, Sqrt_of 5] = [3, 2, 4, 1, 0]"
  by (simp add: argsort_stable_def upt_5 sort_rank_def)

lemma argsort_ex3:
  "argsort_stable [Sqrt_of 1, Sqrt_of 5, Sqrt_of 8, Sqrt_of 25, Sqrt_of 41] = [0, 1, 2, 3, 4]"
  by (simp add: argsort_stable_def upt_5 sort_rank_def)

lemma argsort_ex4:
  "argsort_stable [Sqrt_of 41, Sqrt_of 25, Sqrt_of 18, Sqrt_of 5, Sqrt_of 1] = [4, 3, 2, 1, 0]"
  by (simp add: argsort_stable_def upt_5 sort_rank_def)

lemma exact_ex1:
  "\<forall>d\<in>set [Sqrt_of 0, Sqrt_of 2, Sqrt_of 5, Sqrt_of 20, Sqrt_of 34]. exact_sqrt d"
  by (simp add: exact_sqrt_def)

lemma exact_ex2:
  "\<forall>d\<in>set [Sqrt_of 17, Sqrt_of 9, Sqrt_of 4, Sqrt_of 1, Sqrt_of 5]. exact_sqrt d"
  by (simp add: exact_sqrt_def)

lemma distinct_ex1: "distinct [Sqrt_of 0, Sqrt_of 2, Sqrt_of 5, Sqrt_of 20, Sqrt_of 34]"
  by simp

lemma distinct_ex2: "distinct [Sqrt_of 17, Sqrt_of 9, Sqrt_of 4, Sqrt_of 1, Sqrt_of 5]"
  by simp











section \<open>Further facts used by the claims\<close>

lemma predict_point_k_above_N:
  assumes ok: "argsort_ok f" and k: "int (length (rows X)) \<le> k"
  shows "predict_point f X y k q = predict_point f X y (int (length (rows X))) q"
proof (cases "distances X q")
  case (Inl e)
  then show ?thesis by (simp add: predict_point_def nearest_neighbors_def)
next
  case (Inr ds)
  have "length (f ds) = length (rows X)"
    using argsort_ok_length[OF ok, of ds] distances_length[OF Inr] by simp
  with k have "slice_upto k (f ds) = slice_upto (int (length (rows X))) (f ds)"
    by (simp add: slice_upto_def)
  then show ?thesis by (simp add: predict_point_def nearest_neighbors_def Inr)
qed

lemma all_indices_labels:
  assumes "distinct nn" "set nn \<subseteq> {0..<length y}" "length nn = length y"
  shows "count_list (map (\<lambda>i. y ! i) nn) l = count_list y l"
proof -
  have "card (set nn) = card {0..<length y}" using assms(1,3) by (simp add: distinct_card)
  with assms(2) have "set nn = {0..<length y}" by (intro card_subset_eq) auto
  then have "set nn = set [0..<length y]" by simp
  with assms(1) distinct_upt[of 0 "length y"] have "mset nn = mset [0..<length y]"
    using set_eq_iff_mset_eq_distinct by blast
  then have "mset (map (\<lambda>i. y ! i) nn) = mset (map (\<lambda>i. y ! i) [0..<length y])"
    by (metis mset_map)
  then have "mset (map (\<lambda>i. y ! i) nn) = mset y" by (simp add: map_nth)
  then show ?thesis by (metis count_mset)
qed

lemma distances_not_broadcastable:
  "\<not> broadcastable (ncols X) (length q) \<Longrightarrow> distances X q = Inl ValueError"
  by (simp add: distances_def broadcast_sub_def broadcastable_def)

lemma distances_broadcastable:
  "broadcastable (ncols X) (length q) \<Longrightarrow> \<exists>ds. distances X q = Inr ds"
  by (auto simp: distances_def broadcast_sub_def broadcastable_def)

lemma predict_point_ValueError:
  "\<not> broadcastable (ncols X) (length q) \<Longrightarrow> predict_point f X y k q = Inl ValueError"
  by (simp add: predict_point_def nearest_neighbors_def distances_not_broadcastable)

lemma predict_point_empty_slice:
  assumes ok: "argsort_ok f" and ds: "distances X q = Inr ds"
    and z: "slice_len k (length (rows X)) = 0"
  shows "predict_point f X y k q = Inl IndexError"
proof -
  have "length (slice_upto k (f ds)) = 0"
    using slice_argsort(3)[OF ok, of k ds] distances_length[OF ds] z by simp
  then have "slice_upto k (f ds) = []" by simp
  then show ?thesis
    by (simp add: predict_point_def nearest_neighbors_Inr[OF ds] majority_vote_Nil)
qed

lemma slice_len_zero_iff:
  "slice_len k n = 0 \<longleftrightarrow> n = 0 \<or> k = 0 \<or> k \<le> - int n"
  by (auto simp: slice_len_def min_def)

section \<open>Claims\<close>




text \<open>
  Claim C2. On the notebook's test data with \<open>k = 3\<close> the call returns the labels
  \<open>[0, 1]\<close>, whichever sorting permutation \<^verbatim>\<open>argsort\<close> returns (the distances of each
  query point are pairwise different).
\<close>

theorem knn_predict_example:
  assumes "argsort_ok argsort"
  shows "knn_predict argsort X_train_ex y_train_ex X_test_ex 3 = Inr [0, 1]"
proof -
  have n1: "nearest_neighbors argsort X_train_ex 3 [1, 2] = Inr [0, 1, 2]"
    by (simp add: nearest_neighbors_def distances_ex1
        argsort_unique[OF assms exact_ex1 distinct_ex1] argsort_ex1 slice_upto_def)
  have n2: "nearest_neighbors argsort X_train_ex 3 [5, 3] = Inr [3, 2, 4]"
    by (simp add: nearest_neighbors_def distances_ex2
        argsort_unique[OF assms exact_ex2 distinct_ex2] argsort_ex2 slice_upto_def)
  have p1: "predict_point argsort X_train_ex y_train_ex 3 [1, 2] = Inr 0"
    by (simp add: predict_point_def n1 y_train_ex_def getitem_def majority_vote_def
        most_common1_def Counter_def)
  have p2: "predict_point argsort X_train_ex y_train_ex 3 [5, 3] = Inr 1"
    by (simp add: predict_point_def n2 y_train_ex_def getitem_def majority_vote_def
        most_common1_def Counter_def)
  show ?thesis
    by (simp add: knn_predict_def X_test_ex_def p1 p2)
qed

theorem knn_predict_example_witness:
  "argsort_ok argsort_stable \<and>
   knn_predict argsort_stable X_train_ex y_train_ex X_test_ex 3 = Inr [0, 1]"
  using knn_predict_example[OF argsort_stable_ok] argsort_stable_ok by simp

text \<open>
  Claim C3, as the code has it. The function validates nothing; what a call does follows
  from the operations of the first loop iteration. For a rectangular query array:
  with no query point the result is the empty sequence; with a query point, a query
  dimensionality that differs from the training dimensionality raises ValueError only
  when neither of the two is 1 (otherwise the arrays are broadcast); an empty neighbour
  slice (no training point, \<open>k = 0\<close>, or \<open>k \<le> -N\<close>) raises IndexError; and with at least
  one training point, a label for each, and \<open>k \<ge> 1\<close> or \<open>-N < k < 0\<close>, every iteration
  selects \<open>min k N\<close> (for \<open>k \<ge> 1\<close>) or \<open>N + k\<close> (for negative \<open>k\<close>) distinct training
  indices as neighbours, and the call returns one label per query point.
\<close>

theorem knn_predict_outcomes:
  assumes "argsort_ok argsort" "wf_array2d X_test"
  shows
   "(rows X_test = [] \<longrightarrow> knn_predict argsort X_train y_train X_test k = Inr []) \<and>
    (rows X_test \<noteq> [] \<and> \<not> broadcastable (ncols X_train) (ncols X_test) \<longrightarrow>
       knn_predict argsort X_train y_train X_test k = Inl ValueError) \<and>
    (rows X_test \<noteq> [] \<and> broadcastable (ncols X_train) (ncols X_test) \<and>
       (rows X_train = [] \<or> k = 0 \<or> k \<le> - int (length (rows X_train))) \<longrightarrow>
       knn_predict argsort X_train y_train X_test k = Inl IndexError) \<and>
    (broadcastable (ncols X_train) (ncols X_test) \<and> rows X_train \<noteq> [] \<and>
       length (rows X_train) \<le> length y_train \<and> k \<noteq> 0 \<and> - int (length (rows X_train)) < k \<longrightarrow>
       (\<exists>out. knn_predict argsort X_train y_train X_test k = Inr out \<and>
          length out = length (rows X_test)) \<and>
       (\<forall>q\<in>set (rows X_test). \<exists>nn.
          nearest_neighbors argsort X_train k q = Inr nn \<and> distinct nn \<and>
          set nn \<subseteq> {0..<length (rows X_train)} \<and>
          length nn = (if 0 < k then min (nat k) (length (rows X_train))
                       else nat (int (length (rows X_train)) + k))))"
proof (intro conjI impI)
  assume "rows X_test = []"
  then show "knn_predict argsort X_train y_train X_test k = Inr []"
    by (simp add: knn_predict_def)
next
  assume a: "rows X_test \<noteq> [] \<and> \<not> broadcastable (ncols X_train) (ncols X_test)"
  then obtain q qs where r: "rows X_test = q # qs" by (cases "rows X_test") auto
  with assms(2) have "length q = ncols X_test" by (simp add: wf_array2d_def)
  with a have "predict_point argsort X_train y_train k q = Inl ValueError"
    by (simp add: predict_point_ValueError)
  then show "knn_predict argsort X_train y_train X_test k = Inl ValueError"
    by (simp add: knn_predict_def r)
next
  assume a: "rows X_test \<noteq> [] \<and> broadcastable (ncols X_train) (ncols X_test) \<and>
       (rows X_train = [] \<or> k = 0 \<or> k \<le> - int (length (rows X_train)))"
  then obtain q qs where r: "rows X_test = q # qs" by (cases "rows X_test") auto
  with assms(2) have "length q = ncols X_test" by (simp add: wf_array2d_def)
  with a obtain ds where ds: "distances X_train q = Inr ds"
    using distances_broadcastable[of X_train q] by auto
  have "slice_len k (length (rows X_train)) = 0"
    using a by (simp add: slice_len_zero_iff)
  from predict_point_empty_slice[OF assms(1) ds this, of y_train]
  show "knn_predict argsort X_train y_train X_test k = Inl IndexError"
    by (simp add: knn_predict_def r)
next
  assume a: "broadcastable (ncols X_train) (ncols X_test) \<and> rows X_train \<noteq> [] \<and>
       length (rows X_train) \<le> length y_train \<and> k \<noteq> 0 \<and> - int (length (rows X_train)) < k"
  then have pos: "0 < slice_len k (length (rows X_train))"
    using slice_len_zero_iff[of k "length (rows X_train)"] by auto
  have dist: "\<exists>ds. distances X_train q = Inr ds" if "q \<in> set (rows X_test)" for q
  proof -
    from that assms(2) have "length q = ncols X_test"
      by (simp add: wf_array2d_def list_all_iff)
    with a show ?thesis using distances_broadcastable[of X_train q] by auto
  qed
  have "\<forall>q\<in>set (rows X_test). \<exists>v. predict_point argsort X_train y_train k q = Inr v"
  proof
    fix q assume "q \<in> set (rows X_test)"
    from dist[OF this] obtain ds where ds: "distances X_train q = Inr ds" by blast
    from a have len: "length (rows X_train) \<le> length y_train" by simp
    from predict_point_ok[OF assms(1) ds len pos]
    show "\<exists>v. predict_point argsort X_train y_train k q = Inr v" by blast
  qed
  from knn_predict_total[OF this] obtain out where
    out: "knn_predict argsort X_train y_train X_test k = Inr out" by blast
  have nb: "\<forall>q\<in>set (rows X_test). \<exists>nn.
          nearest_neighbors argsort X_train k q = Inr nn \<and> distinct nn \<and>
          set nn \<subseteq> {0..<length (rows X_train)} \<and>
          length nn = (if 0 < k then min (nat k) (length (rows X_train))
                       else nat (int (length (rows X_train)) + k))"
  proof
    fix q assume "q \<in> set (rows X_test)"
    from dist[OF this] obtain ds where ds: "distances X_train q = Inr ds" by blast
    have l: "length ds = length (rows X_train)" by (rule distances_length[OF ds])
    have "slice_len k (length (rows X_train)) =
        (if 0 < k then min (nat k) (length (rows X_train))
         else nat (int (length (rows X_train)) + k))"
      using a by (auto simp: slice_len_def)
    with slice_argsort[OF assms(1), of k ds] l nearest_neighbors_Inr[OF ds, of argsort k]
    show "\<exists>nn. nearest_neighbors argsort X_train k q = Inr nn \<and> distinct nn \<and>
          set nn \<subseteq> {0..<length (rows X_train)} \<and>
          length nn = (if 0 < k then min (nat k) (length (rows X_train))
                       else nat (int (length (rows X_train)) + k))"
      by simp
  qed
  from out knn_predict_nth(1)[OF out]
  show "\<exists>out. knn_predict argsort X_train y_train X_test k = Inr out \<and>
          length out = length (rows X_test)"
    by blast
  from nb
  show "\<forall>q\<in>set (rows X_test). \<exists>nn.
          nearest_neighbors argsort X_train k q = Inr nn \<and> distinct nn \<and>
          set nn \<subseteq> {0..<length (rows X_train)} \<and>
          length nn = (if 0 < k then min (nat k) (length (rows X_train))
                       else nat (int (length (rows X_train)) + k))" .
qed

theorem knn_predict_outcomes_witness:
  "argsort_ok argsort_stable \<and> wf_array2d X_test_ex \<and>
   wf_array2d \<lparr>ncols = 2, rows = []\<rparr> \<and> wf_array2d \<lparr>ncols = 3, rows = [[1, 2, 3]]\<rparr> \<and>
   knn_predict argsort_stable X_train_ex y_train_ex \<lparr>ncols = 2, rows = []\<rparr> 3 = Inr [] \<and>
   knn_predict argsort_stable X_train_ex y_train_ex \<lparr>ncols = 3, rows = [[1, 2, 3]]\<rparr> 3
     = Inl ValueError \<and>
   knn_predict argsort_stable X_train_ex y_train_ex X_test_ex 0 = Inl IndexError \<and>
   knn_predict argsort_stable X_train_ex y_train_ex X_test_ex (- 5) = Inl IndexError \<and>
   knn_predict argsort_stable \<lparr>ncols = 2, rows = []\<rparr> ([] :: int list) X_test_ex 3
     = Inl IndexError \<and>
   (\<exists>out. knn_predict argsort_stable X_train_ex y_train_ex X_test_ex (- 1) = Inr out \<and>
      length out = 2) \<and>
   (\<exists>nn. nearest_neighbors argsort_stable X_train_ex (- 1) [5, 3] = Inr nn \<and> length nn = 4)"
proof -
  have w0: "wf_array2d \<lparr>ncols = 2, rows = []\<rparr>" by (simp add: wf_array2d_def)
  have w3: "wf_array2d \<lparr>ncols = 3, rows = [[1, 2, 3]]\<rparr>" by (simp add: wf_array2d_def)
  have c1: "knn_predict argsort_stable X_train_ex y_train_ex \<lparr>ncols = 2, rows = []\<rparr> 3 = Inr []"
    using knn_predict_outcomes[OF argsort_stable_ok w0, of X_train_ex y_train_ex 3] by simp
  have c2: "knn_predict argsort_stable X_train_ex y_train_ex \<lparr>ncols = 3, rows = [[1, 2, 3]]\<rparr> 3
     = Inl ValueError"
    using knn_predict_outcomes[OF argsort_stable_ok w3, of X_train_ex y_train_ex 3]
    by (simp add: broadcastable_def X_train_ex_def)
  have c3: "knn_predict argsort_stable X_train_ex y_train_ex X_test_ex 0 = Inl IndexError"
    using knn_predict_outcomes[OF argsort_stable_ok wf_X_test_ex, of X_train_ex y_train_ex 0]
    by (simp add: broadcastable_def X_train_ex_def X_test_ex_def)
  have c4: "knn_predict argsort_stable X_train_ex y_train_ex X_test_ex (- 5) = Inl IndexError"
    using knn_predict_outcomes[OF argsort_stable_ok wf_X_test_ex, of X_train_ex y_train_ex "- 5"]
    by (simp add: broadcastable_def X_train_ex_def X_test_ex_def)
  have c5: "knn_predict argsort_stable \<lparr>ncols = 2, rows = []\<rparr> ([] :: int list) X_test_ex 3
     = Inl IndexError"
    using knn_predict_outcomes[OF argsort_stable_ok wf_X_test_ex,
        of "\<lparr>ncols = 2, rows = []\<rparr>" "[] :: int list" 3]
    by (simp add: broadcastable_def X_test_ex_def)
  note o = knn_predict_outcomes[OF argsort_stable_ok wf_X_test_ex,
      of X_train_ex y_train_ex "- 1", THEN conjunct2, THEN conjunct2, THEN conjunct2]
  have h: "broadcastable (ncols X_train_ex) (ncols X_test_ex) \<and> rows X_train_ex \<noteq> [] \<and>
      length (rows X_train_ex) \<le> length y_train_ex \<and> (- 1 :: int) \<noteq> 0 \<and>
      - int (length (rows X_train_ex)) < - 1"
    by (simp add: broadcastable_def X_train_ex_def X_test_ex_def y_train_ex_def)
  have m: "length (rows X_test_ex) = 2" by (simp add: X_test_ex_def)
  have c6: "\<exists>out. knn_predict argsort_stable X_train_ex y_train_ex X_test_ex (- 1) = Inr out \<and>
      length out = 2"
    using o h m by auto
  have q: "[5, 3] \<in> set (rows X_test_ex)" by (simp add: X_test_ex_def)
  have n: "(if 0 < (- 1 :: int) then min (nat (- 1)) (length (rows X_train_ex))
       else nat (int (length (rows X_train_ex)) + - 1)) = 4"
    by (simp add: X_train_ex_def)
  from o h q have "\<exists>nn. nearest_neighbors argsort_stable X_train_ex (- 1) [5, 3] = Inr nn \<and>
      length nn = (if 0 < (- 1 :: int) then min (nat (- 1)) (length (rows X_train_ex))
       else nat (int (length (rows X_train_ex)) + - 1))"
    by blast
  then have c7: "\<exists>nn. nearest_neighbors argsort_stable X_train_ex (- 1) [5, 3] = Inr nn \<and>
      length nn = 4"
    unfolding n .
  from argsort_stable_ok wf_X_test_ex w0 w3 c1 c2 c3 c4 c5 c6 c7 show ?thesis by blast
qed

text \<open>
  Claim C3 as stated fails: \<open>k = -1\<close> is a slice that drops the farthest neighbour, an
  empty training set with an empty query set returns the empty sequence, and a query
  dimensionality of 1 is broadcast against training points of dimensionality 2.
\<close>

theorem knn_predict_no_validation_counterexample:
  "knn_predict argsort_stable X_train_ex y_train_ex X_test_ex (- 1) = Inr [0, 1] \<and>
   knn_predict argsort_stable \<lparr>ncols = 2, rows = []\<rparr> ([] :: int list) \<lparr>ncols = 2, rows = []\<rparr> 3
     = Inr [] \<and>
   knn_predict argsort_stable X_train_ex y_train_ex \<lparr>ncols = 1, rows = [[1], [6]]\<rparr> 3
     = Inr [0, 1]"
proof (intro conjI)
  have n1: "nearest_neighbors argsort_stable X_train_ex (- 1) [1, 2] = Inr [0, 1, 2, 3]"
    by (simp add: nearest_neighbors_def distances_ex1 argsort_ex1 slice_upto_def)
  have n2: "nearest_neighbors argsort_stable X_train_ex (- 1) [5, 3] = Inr [3, 2, 4, 1]"
    by (simp add: nearest_neighbors_def distances_ex2 argsort_ex2 slice_upto_def)
  have p1: "predict_point argsort_stable X_train_ex y_train_ex (- 1) [1, 2] = Inr 0"
    by (simp add: predict_point_def n1 y_train_ex_def getitem_def majority_vote_def
        most_common1_def Counter_def)
  have p2: "predict_point argsort_stable X_train_ex y_train_ex (- 1) [5, 3] = Inr 1"
    by (simp add: predict_point_def n2 y_train_ex_def getitem_def majority_vote_def
        most_common1_def Counter_def)
  show "knn_predict argsort_stable X_train_ex y_train_ex X_test_ex (- 1) = Inr [0, 1]"
    by (simp add: knn_predict_def X_test_ex_def p1 p2)
next
  show "knn_predict argsort_stable \<lparr>ncols = 2, rows = []\<rparr> ([] :: int list)
      \<lparr>ncols = 2, rows = []\<rparr> 3 = Inr []"
    by (simp add: knn_predict_def)
next
  have n1: "nearest_neighbors argsort_stable X_train_ex 3 [1] = Inr [0, 1, 2]"
    by (simp add: nearest_neighbors_def distances_ex3 argsort_ex3 slice_upto_def)
  have n2: "nearest_neighbors argsort_stable X_train_ex 3 [6] = Inr [4, 3, 2]"
    by (simp add: nearest_neighbors_def distances_ex4 argsort_ex4 slice_upto_def)
  have p1: "predict_point argsort_stable X_train_ex y_train_ex 3 [1] = Inr 0"
    by (simp add: predict_point_def n1 y_train_ex_def getitem_def majority_vote_def
        most_common1_def Counter_def)
  have p2: "predict_point argsort_stable X_train_ex y_train_ex 3 [6] = Inr 1"
    by (simp add: predict_point_def n2 y_train_ex_def getitem_def majority_vote_def
        most_common1_def Counter_def)
  show "knn_predict argsort_stable X_train_ex y_train_ex \<lparr>ncols = 1, rows = [[1], [6]]\<rparr> 3
      = Inr [0, 1]"
    by (simp add: knn_predict_def p1 p2)
qed




text \<open>
  Claim C5. On valid data and \<open>k \<ge> 1\<close> the output has one label per query point, and
  the label at position \<open>i\<close> is the prediction for query point \<open>i\<close>. For an empty
  query set the output is empty, whatever the training set, the labels and \<open>k\<close> are.
\<close>

theorem knn_predict_output_length:
  "(argsort_ok argsort \<longrightarrow> valid_data X_train y_train X_test \<longrightarrow> 1 \<le> k \<longrightarrow>
      (\<exists>out. knn_predict argsort X_train y_train X_test k = Inr out \<and>
         length out = length (rows X_test) \<and>
         (\<forall>i<length (rows X_test).
            predict_point argsort X_train y_train k (rows X_test ! i) = Inr (out ! i)))) \<and>
   knn_predict argsort' X_train' y_train' (X_test'\<lparr>rows := []\<rparr>) k' = Inr []"
proof (intro conjI impI)
  assume ok: "argsort_ok argsort" and valid: "valid_data X_train y_train X_test" and k: "1 \<le> k"
  have N: "0 < length (rows X_train)" using valid by (simp add: valid_data_def)
  have pos: "0 < slice_len k (length (rows X_train))" by (rule slice_len_pos'[OF k N])
  have "\<forall>q\<in>set (rows X_test). \<exists>v. predict_point argsort X_train y_train k q = Inr v"
  proof
    fix q assume "q \<in> set (rows X_test)"
    from predict_point_valid[OF ok valid this pos]
    show "\<exists>v. predict_point argsort X_train y_train k q = Inr v" by metis
  qed
  from knn_predict_total[OF this] obtain out where
    out: "knn_predict argsort X_train y_train X_test k = Inr out" by blast
  from out knn_predict_nth[OF out]
  show "\<exists>out. knn_predict argsort X_train y_train X_test k = Inr out \<and>
         length out = length (rows X_test) \<and>
         (\<forall>i<length (rows X_test).
            predict_point argsort X_train y_train k (rows X_test ! i) = Inr (out ! i))"
    by blast
next
  show "knn_predict argsort' X_train' y_train' (X_test'\<lparr>rows := []\<rparr>) k' = Inr []"
    by (simp add: knn_predict_def)
qed

theorem knn_predict_output_length_witness:
  "argsort_ok argsort_stable \<and> valid_data X_train_ex y_train_ex X_test_ex \<and> (1::int) \<le> 3 \<and>
   (\<exists>out. knn_predict argsort_stable X_train_ex y_train_ex X_test_ex 3 = Inr out \<and>
      length out = 2)"
proof -
  have k: "(1::int) \<le> 3" by simp
  have m: "length (rows X_test_ex) = 2" by (simp add: X_test_ex_def)
  from knn_predict_output_length[of argsort_stable X_train_ex y_train_ex X_test_ex 3
      argsort_stable X_train_ex y_train_ex X_test_ex 3, THEN conjunct1]
    argsort_stable_ok valid_ex k
  have "\<exists>out. knn_predict argsort_stable X_train_ex y_train_ex X_test_ex 3 = Inr out \<and>
      length out = length (rows X_test_ex)" by blast
  with argsort_stable_ok valid_ex k m show ?thesis by simp
qed

text \<open>
  Claim C6. For \<open>k\<close> greater than the number \<open>N\<close> of training points the call returns
  what the call with \<open>k = N\<close> returns; on valid data every prediction is then a label whose
  count among all training labels is the highest.
\<close>

theorem knn_predict_k_above_N:
  assumes "argsort_ok argsort" "int (length (rows X_train)) < k"
  shows "knn_predict argsort X_train y_train X_test k =
           knn_predict argsort X_train y_train X_test (int (length (rows X_train))) \<and>
         (valid_data X_train y_train X_test \<longrightarrow>
            (\<exists>out. knn_predict argsort X_train y_train X_test k = Inr out \<and>
               length out = length (rows X_test) \<and>
               (\<forall>p\<in>set out. \<forall>l. count_list y_train l \<le> count_list y_train p)))"
proof (intro conjI impI)
  let ?N = "length (rows X_train)"
  have k: "int ?N \<le> k" using assms(2) by simp
  show "knn_predict argsort X_train y_train X_test k =
           knn_predict argsort X_train y_train X_test (int ?N)"
    unfolding knn_predict_def
    by (intro knn_loop_cong ballI predict_point_k_above_N[OF assms(1) k])
next
  let ?N = "length (rows X_train)"
  assume valid: "valid_data X_train y_train X_test"
  have N: "0 < ?N" and ly: "length y_train = ?N" using valid by (simp_all add: valid_data_def)
  have sl: "slice_len k ?N = ?N" using assms(2) by (simp add: slice_len_def)
  have pos: "0 < slice_len k ?N" using sl N by simp
  have pt: "\<exists>v. predict_point argsort X_train y_train k q = Inr v \<and>
              (\<forall>l. count_list y_train l \<le> count_list y_train v)"
    if q: "q \<in> set (rows X_test)" for q
  proof -
    from predict_point_valid[OF assms(1) valid q pos] obtain nn v pre post where
      p: "predict_point argsort X_train y_train k q = Inr v"
        "distinct nn" "set nn \<subseteq> {0..<?N}" "length nn = slice_len k ?N"
        "\<forall>l. count_list (map (\<lambda>i. y_train ! i) nn) l \<le> count_list (map (\<lambda>i. y_train ! i) nn) v"
      by metis
    have "count_list (map (\<lambda>i. y_train ! i) nn) l = count_list y_train l" for l
      using p(2,3,4) sl ly by (intro all_indices_labels) simp_all
    with p(1,5) show ?thesis by simp
  qed
  then have "\<forall>q\<in>set (rows X_test). \<exists>v. predict_point argsort X_train y_train k q = Inr v"
    by blast
  from knn_predict_total[OF this] obtain out where
    out: "knn_predict argsort X_train y_train X_test k = Inr out" by blast
  have "\<forall>l. count_list y_train l \<le> count_list y_train p" if "p \<in> set out" for p
  proof -
    from that obtain i where i: "i < length out" "p = out ! i" by (auto simp: in_set_conv_nth)
    then have i': "i < length (rows X_test)" using knn_predict_nth(1)[OF out] by simp
    then have "rows X_test ! i \<in> set (rows X_test)" by simp
    from pt[OF this] knn_predict_nth(2)[OF out i'] i(2) show ?thesis by auto
  qed
  with out knn_predict_nth(1)[OF out]
  show "\<exists>out. knn_predict argsort X_train y_train X_test k = Inr out \<and>
               length out = length (rows X_test) \<and>
               (\<forall>p\<in>set out. \<forall>l. count_list y_train l \<le> count_list y_train p)"
    by blast
qed

theorem knn_predict_k_above_N_witness:
  "argsort_ok argsort_stable \<and> int (length (rows X_train_ex)) < 8 \<and>
   valid_data X_train_ex y_train_ex X_test_ex \<and>
   knn_predict argsort_stable X_train_ex y_train_ex X_test_ex 8 =
     knn_predict argsort_stable X_train_ex y_train_ex X_test_ex 5 \<and>
   (\<exists>out. knn_predict argsort_stable X_train_ex y_train_ex X_test_ex 8 = Inr out \<and>
      length out = 2 \<and> (\<forall>p\<in>set out. count_list y_train_ex 1 \<le> count_list y_train_ex p))"
proof -
  have n: "length (rows X_train_ex) = 5" by (simp add: X_train_ex_def)
  have m: "length (rows X_test_ex) = 2" by (simp add: X_test_ex_def)
  have k: "int (length (rows X_train_ex)) < 8" by (simp add: n)
  from knn_predict_k_above_N[OF argsort_stable_ok k, of y_train_ex X_test_ex] valid_ex
  have "knn_predict argsort_stable X_train_ex y_train_ex X_test_ex 8 =
          knn_predict argsort_stable X_train_ex y_train_ex X_test_ex (int (length (rows X_train_ex)))"
    and "\<exists>out. knn_predict argsort_stable X_train_ex y_train_ex X_test_ex 8 = Inr out \<and>
      length out = length (rows X_test_ex) \<and>
      (\<forall>p\<in>set out. \<forall>l. count_list y_train_ex l \<le> count_list y_train_ex p)"
    by blast+
  with argsort_stable_ok k valid_ex n m show ?thesis by (simp del: count_list.simps) blast
qed





text \<open>
  Claim C9. On valid data and \<open>k \<ge> 1\<close> every label of the output is one of the
  training labels; when all training labels are the same label \<open>c\<close>, every prediction
  is \<open>c\<close>.
\<close>

theorem knn_predict_labels_from_training:
  assumes "argsort_ok argsort" "valid_data X_train y_train X_test" "1 \<le> k"
  shows "\<exists>out. knn_predict argsort X_train y_train X_test k = Inr out \<and>
           set out \<subseteq> set y_train \<and>
           ((\<forall>l\<in>set y_train. l = c) \<longrightarrow> (\<forall>p\<in>set out. p = c))"
proof -
  let ?N = "length (rows X_train)"
  have N: "0 < ?N" and ly: "length y_train = ?N" using assms(2) by (simp_all add: valid_data_def)
  have pos: "0 < slice_len k ?N" by (rule slice_len_pos'[OF assms(3) N])
  have pt: "\<exists>v. predict_point argsort X_train y_train k q = Inr v \<and> v \<in> set y_train"
    if q: "q \<in> set (rows X_test)" for q
  proof -
    from predict_point_valid[OF assms(1,2) q pos] obtain nn v pre post where
      p: "predict_point argsort X_train y_train k q = Inr v"
        "set nn \<subseteq> {0..<?N}" "map (\<lambda>i. y_train ! i) nn = pre @ v # post"
      by metis
    have "v \<in> set (map (\<lambda>i. y_train ! i) nn)" unfolding p(3) by simp
    then obtain a where "a \<in> set nn" "v = y_train ! a" by auto
    with p(2) ly have "v \<in> set y_train" by auto
    with p(1) show ?thesis by blast
  qed
  then have "\<forall>q\<in>set (rows X_test). \<exists>v. predict_point argsort X_train y_train k q = Inr v"
    by blast
  from knn_predict_total[OF this] obtain out where
    out: "knn_predict argsort X_train y_train X_test k = Inr out" by blast
  have sub: "set out \<subseteq> set y_train"
  proof
    fix p assume "p \<in> set out"
    then obtain i where i: "i < length out" "p = out ! i" by (auto simp: in_set_conv_nth)
    then have i': "i < length (rows X_test)" using knn_predict_nth(1)[OF out] by simp
    then have "rows X_test ! i \<in> set (rows X_test)" by simp
    from pt[OF this] knn_predict_nth(2)[OF out i'] i(2) show "p \<in> set y_train" by auto
  qed
  then have "(\<forall>l\<in>set y_train. l = c) \<longrightarrow> (\<forall>p\<in>set out. p = c)" by blast
  with out sub show ?thesis by blast
qed

theorem knn_predict_labels_from_training_witness:
  "argsort_ok argsort_stable \<and>
   valid_data X_train_ex [7, 7, 7, 7, 7 :: int] X_test_ex \<and> (1::int) \<le> 2 \<and>
   (\<exists>out. knn_predict argsort_stable X_train_ex [7, 7, 7, 7, 7 :: int] X_test_ex 2 = Inr out \<and>
      (\<forall>p\<in>set out. p = 7))"
proof -
  have k: "(1::int) \<le> 2" by simp
  have v: "valid_data X_train_ex [7, 7, 7, 7, 7 :: int] X_test_ex"
    by (simp add: valid_data_def wf_array2d_def X_train_ex_def X_test_ex_def)
  have a: "\<forall>l\<in>set [7, 7, 7, 7, 7 :: int]. l = 7" by simp
  from knn_predict_labels_from_training[OF argsort_stable_ok v k, of 7] a
  have "\<exists>out. knn_predict argsort_stable X_train_ex [7, 7, 7, 7, 7 :: int] X_test_ex 2 = Inr out \<and>
      (\<forall>p\<in>set out. p = 7)" by blast
  with argsort_stable_ok v k a show ?thesis by blast
qed

text \<open>
  Claim C10. A call that omits \<open>k\<close> returns what the call with \<open>k = 3\<close> returns.
\<close>

theorem knn_predict_default_k:
  "knn_predict_kw argsort X_train y_train X_test None =
   knn_predict_kw argsort X_train y_train X_test (Some 3) \<and>
   knn_predict_kw argsort X_train y_train X_test None =
   knn_predict argsort X_train y_train X_test 3"
  by (simp add: knn_predict_kw_def)

end
